theory Spec2Isabelle
  imports Main "HOL-Library.Word" "HOL-Library.Sublist"
begin

section \<open>Strings\<close>

text \<open>
  A JavaScript string is a sequence of 16-bit code units. ASCII literals of the source are
  written through \<open>js\<close>; the Arabic literals are given by their code units.
\<close>

type_synonym jsstring = "16 word list"

definition js :: "string \<Rightarrow> jsstring" where
  "js s = map of_char s"

text \<open>\<open>String.prototype.includes\<close>: the needle occurs as a contiguous run.\<close>

fun str_includes :: "jsstring \<Rightarrow> jsstring \<Rightarrow> bool" where
  "str_includes [] needle = (needle = [])"
| "str_includes (c # cs) needle = (prefix needle (c # cs) \<or> str_includes cs needle)"

section \<open>The audio coordinator (AudioProvider)\<close>

record voice =
  v_name :: jsstring
  v_lang :: jsstring

text \<open>
  A \<open>SpeechSynthesisUtterance\<close> as \<open>play\<close> builds it. Its three callbacks are closures
  over the \<open>id\<close> argument of the \<open>play\<close> call that created it; \<open>u_owner\<close> is that
  captured id, and \<open>onstart\<close>, \<open>onend\<close>, \<open>onerror\<close> below are the closures' bodies.
  The rate 0.85 is kept in hundredths.
\<close>

record utterance =
  u_text :: jsstring
  u_lang :: jsstring
  u_rate100 :: nat
  u_voice :: "voice option"
  u_owner :: jsstring

text \<open>
  \<open>playingId\<close> is the React state, \<open>utteranceRef\<close> the ref, \<open>synth\<close> the queue of
  \<open>window.speechSynthesis\<close> (the utterances handed to \<open>speak\<close> and neither cancelled nor
  finished), \<open>console\<close> what \<open>console.error\<close> received.
\<close>

record audio =
  playingId :: "jsstring option"
  utteranceRef :: "utterance option"
  synth :: "utterance list"
  console :: "(jsstring \<times> jsstring) list"

definition init_audio :: audio where
  "init_audio = \<lparr>playingId = None, utteranceRef = None, synth = [], console = []\<rparr>"

definition cancel :: "audio \<Rightarrow> audio" where
  "cancel s = s\<lparr>synth := []\<rparr>"

definition speak :: "utterance \<Rightarrow> audio \<Rightarrow> audio" where
  "speak u s = s\<lparr>synth := synth s @ [u]\<rparr>"

definition stop :: "audio \<Rightarrow> audio" where
  "stop s = (cancel s)\<lparr>playingId := None, utteranceRef := None\<rparr>"

text \<open>The voice chosen by \<open>play\<close>: the first hit of three searches, tried in order.\<close>

definition arabicVoice :: "voice list \<Rightarrow> voice option" where
  "arabicVoice voices =
     (case find (\<lambda>v. str_includes (v_lang v) (js ''ar'') \<and> str_includes (v_name v) (js ''Google'')) voices of
        Some v \<Rightarrow> Some v
      | None \<Rightarrow>
         (case find (\<lambda>v. str_includes (v_lang v) (js ''ar-SA'')) voices of
            Some v \<Rightarrow> Some v
          | None \<Rightarrow> find (\<lambda>v. str_includes (v_lang v) (js ''ar'')) voices))"

definition new_utterance :: "voice list \<Rightarrow> jsstring \<Rightarrow> jsstring \<Rightarrow> utterance" where
  "new_utterance voices ident txt =
     \<lparr>u_text = txt, u_lang = js ''ar-SA'', u_rate100 = 85,
      u_voice = arabicVoice voices, u_owner = ident\<rparr>"

text \<open>
  \<open>play\<close> reads \<open>playingId\<close> as committed by the last render; every handler runs as an
  event of its own, so that is the current state. \<open>voices\<close> is what \<open>getVoices()\<close> returns.
\<close>

definition play :: "voice list \<Rightarrow> jsstring \<Rightarrow> jsstring \<Rightarrow> audio \<Rightarrow> audio" where
  "play voices ident txt s =
     (if playingId s = Some ident then stop s
      else
        let s1 = cancel s;
            u = new_utterance voices ident txt;
            s2 = s1\<lparr>utteranceRef := Some u\<rparr>
        in speak u s2)"

definition onstart :: "jsstring \<Rightarrow> audio \<Rightarrow> audio" where
  "onstart ident s = s\<lparr>playingId := Some ident\<rparr>"

definition onend :: "audio \<Rightarrow> audio" where
  "onend s = s\<lparr>playingId := None, utteranceRef := None\<rparr>"

definition onerror :: "jsstring \<Rightarrow> audio \<Rightarrow> audio" where
  "onerror e s =
     s\<lparr>console := console s @ [(js ''TTS Error:'', e)], playingId := None, utteranceRef := None\<rparr>"

text \<open>
  The browser's side. A notification goes to the utterance at the head of the queue:
  \<open>fire_start\<close> when it begins to sound, \<open>fire_end\<close> and \<open>fire_error\<close> when it leaves
  the queue finished or failed. With nothing queued there is nothing to notify.
\<close>

definition fire_start :: "audio \<Rightarrow> audio" where
  "fire_start s = (case synth s of [] \<Rightarrow> s | u # q \<Rightarrow> onstart (u_owner u) s)"

definition fire_end :: "audio \<Rightarrow> audio" where
  "fire_end s = (case synth s of [] \<Rightarrow> s | u # q \<Rightarrow> onend (s\<lparr>synth := q\<rparr>))"

definition fire_error :: "jsstring \<Rightarrow> audio \<Rightarrow> audio" where
  "fire_error e s = (case synth s of [] \<Rightarrow> s | u # q \<Rightarrow> onerror e (s\<lparr>synth := q\<rparr>))"

text \<open>The per-card flag of \<open>ContentCard\<close>: \<open>isPlaying = playingId === item.id\<close>.\<close>

definition isPlaying :: "audio \<Rightarrow> jsstring \<Rightarrow> bool" where
  "isPlaying s ident = (playingId s = Some ident)"

text \<open>
  What can happen to the coordinator. \<open>Play\<close> and \<open>Stop\<close> are the two calls of the
  context; \<open>Started\<close>, \<open>Ended\<close>, \<open>Failed\<close> are the browser's notifications for the
  queued utterance; \<open>LateEnded\<close> and \<open>LateFailed\<close> are the \<open>onend\<close> and \<open>onerror\<close> of
  an utterance that \<open>cancel()\<close> has already removed from the queue.
\<close>

datatype event =
    Play jsstring jsstring
  | Stop
  | Started
  | Ended
  | Failed jsstring
  | LateEnded
  | LateFailed jsstring

fun step :: "voice list \<Rightarrow> event \<Rightarrow> audio \<Rightarrow> audio" where
  "step vs (Play i t) s = play vs i t s"
| "step vs Stop s = stop s"
| "step vs Started s = fire_start s"
| "step vs Ended s = fire_end s"
| "step vs (Failed e) s = fire_error e s"
| "step vs LateEnded s = onend s"
| "step vs (LateFailed e) s = onerror e s"

fun run :: "voice list \<Rightarrow> event list \<Rightarrow> audio \<Rightarrow> audio" where
  "run vs [] s = s"
| "run vs (e # es) s = run vs es (step vs e s)"

inductive reachable :: "voice list \<Rightarrow> audio \<Rightarrow> bool" for vs :: "voice list" where
  reach_init: "reachable vs init_audio"
| reach_step: "reachable vs s \<Longrightarrow> reachable vs (step vs e s)"

text \<open>\<open>starts i e s\<close>: event \<open>e\<close>, arriving in state \<open>s\<close>, is the start notification of an
  utterance created by \<open>play i\<close>.\<close>

definition starts :: "jsstring \<Rightarrow> event \<Rightarrow> audio \<Rightarrow> bool" where
  "starts i e s = (e = Started \<and> (case synth s of [] \<Rightarrow> False | u # q \<Rightarrow> u_owner u = i))"

text \<open>\<open>quiet vs i es s\<close>: along the trace \<open>es\<close> from \<open>s\<close> no such notification arrives.\<close>

fun quiet :: "voice list \<Rightarrow> jsstring \<Rightarrow> event list \<Rightarrow> audio \<Rightarrow> bool" where
  "quiet vs i [] s = True"
| "quiet vs i (e # es) s = (\<not> starts i e s \<and> quiet vs i es (step vs e s))"

section \<open>The static store (types.ts)\<close>

record item =
  i_id :: jsstring
  i_text :: jsstring
  i_source :: "jsstring option"
  i_count :: "nat option"
  i_note :: "jsstring option"

record category =
  c_id :: jsstring
  c_title :: jsstring
  c_icon :: "jsstring option"
  c_items :: "item list"

record section_data =
  s_id :: jsstring
  s_title :: jsstring
  s_description :: jsstring
  s_categories :: "category list"

section \<open>Item actions (ContentCard)\<close>

text \<open>
  What the handlers reach outside the coordinator: the messages shown by \<open>alert\<close> and the
  \<open>(url, target)\<close> pairs given to \<open>window.open\<close>.
\<close>

record window =
  w_audio :: audio
  alerts :: "jsstring list"
  opened :: "(jsstring \<times> jsstring) list"

definition speech_unsupported :: jsstring where
  "speech_unsupported =
     [0x639, 0x630, 0x631, 0x627, 0x64B, 0x60C, 0x20, 0x645, 0x62A, 0x635, 0x641, 0x62D, 0x643,
      0x20, 0x644, 0x627, 0x20, 0x64A, 0x62F, 0x639, 0x645, 0x20, 0x627, 0x644, 0x642, 0x631,
      0x627, 0x621, 0x629, 0x20, 0x627, 0x644, 0x635, 0x648, 0x62A, 0x64A, 0x629]"

text \<open>\<open>has_speech\<close> is the test \<open>'speechSynthesis' in window\<close>.\<close>

definition handleSpeak :: "bool \<Rightarrow> voice list \<Rightarrow> item \<Rightarrow> window \<Rightarrow> window" where
  "handleSpeak has_speech voices it w =
     (if \<not> has_speech then w\<lparr>alerts := alerts w @ [speech_unsupported]\<rparr>
      else if isPlaying (w_audio w) (i_id it) then w\<lparr>w_audio := stop (w_audio w)\<rparr>
      else w\<lparr>w_audio := play voices (i_id it) (i_text it) (w_audio w)\<rparr>)"

datatype action = Speak | Copy | Share

record card =
  card_item :: item
  card_type :: jsstring
  card_count :: "nat option"
  card_actions :: "action list"

text \<open>
  What a card offers, in the order it is laid out. The repeat badge needs a truthy
  \<open>item.count\<close> (present and not 0). Icons, labels and styling are left out.
\<close>

definition ContentCard :: "item \<Rightarrow> jsstring \<Rightarrow> card" where
  "ContentCard it ty =
     \<lparr>card_item = it, card_type = ty,
      card_count = (case i_count it of
                      None \<Rightarrow> None
                    | Some n \<Rightarrow> if n \<noteq> 0 \<and> ty = js ''azkar'' then Some n else None),
      card_actions = (if ty = js ''azkar'' then [Speak] else []) @ [Copy] @
                     (if ty = js ''adiyah'' then [Share] else [])\<rparr>"

section \<open>Pages\<close>

text \<open>
  A rendered page, reduced to what it shows: the placeholder with its message, the
  categories of a section (each with the path its card navigates to), or the cards of a
  category. \<open>APP_DATA\<close> is the content of the static store; route parameters are
  \<open>None\<close> where \<open>useParams\<close> gives \<open>undefined\<close>.
\<close>

datatype page =
    Placeholder jsstring
  | CategoriesView jsstring jsstring "(category \<times> jsstring) list"
  | ItemsView jsstring "card list"

definition section_not_found :: jsstring where
  "section_not_found =
     [0x627, 0x644, 0x642, 0x633, 0x645, 0x20, 0x63A, 0x64A, 0x631, 0x20, 0x645, 0x648, 0x62C,
      0x648, 0x62F]"

definition content_not_found :: jsstring where
  "content_not_found =
     [0x627, 0x644, 0x645, 0x62D, 0x62A, 0x648, 0x649, 0x20, 0x63A, 0x64A, 0x631, 0x20, 0x645,
      0x648, 0x62C, 0x648, 0x62F]"

text \<open>A route parameter inside a template literal.\<close>

definition param_str :: "jsstring option \<Rightarrow> jsstring" where
  "param_str p = (case p of None \<Rightarrow> js ''undefined'' | Some v \<Rightarrow> v)"

definition SectionCategoriesPage :: "section_data list \<Rightarrow> jsstring option \<Rightarrow> page" where
  "SectionCategoriesPage APP_DATA sectionId =
     (case find (\<lambda>s. Some (s_id s) = sectionId) APP_DATA of
        None \<Rightarrow> Placeholder section_not_found
      | Some sectionData \<Rightarrow>
          CategoriesView (s_title sectionData) (s_description sectionData)
            (map (\<lambda>cat. (cat, js ''/'' @ param_str sectionId @ js ''/'' @ c_id cat))
               (s_categories sectionData)))"

definition ItemsListPage ::
  "section_data list \<Rightarrow> jsstring option \<Rightarrow> jsstring option \<Rightarrow> page" where
  "ItemsListPage APP_DATA sectionId categoryId =
     (let sec = find (\<lambda>s. Some (s_id s) = sectionId) APP_DATA;
          cat = (case sec of
                   None \<Rightarrow> None
                 | Some s \<Rightarrow> find (\<lambda>c. Some (c_id c) = categoryId) (s_categories s))
      in case cat of
           None \<Rightarrow> Placeholder content_not_found
         | Some c \<Rightarrow>
            (case sec of
               None \<Rightarrow> Placeholder content_not_found
             | Some s \<Rightarrow>
                ItemsView (c_title c) (map (\<lambda>it. ContentCard it (param_str sectionId)) (c_items c))))"

section \<open>Back navigation (Header)\<close>

text \<open>\<open>String.prototype.split\<close> with a one-unit separator: the pieces between its
  occurrences, empty pieces included.\<close>

fun split :: "16 word \<Rightarrow> jsstring \<Rightarrow> jsstring list" where
  "split sep [] = [[]]"
| "split sep (c # cs) =
     (if c = sep then [] # split sep cs
      else (case split sep cs of [] \<Rightarrow> [[c]] | p # ps \<Rightarrow> (c # p) # ps))"

definition slash :: "16 word" where
  "slash = 0x2F"

text \<open>\<open>filter(Boolean)\<close> on strings drops the empty ones.\<close>

definition pathSegments :: "jsstring \<Rightarrow> jsstring list" where
  "pathSegments pathname = filter (\<lambda>p. p \<noteq> []) (split slash pathname)"

text \<open>The path \<open>handleBack\<close> hands to \<open>navigate\<close>.\<close>

definition handleBack :: "jsstring \<Rightarrow> jsstring" where
  "handleBack pathname =
     (if length (pathSegments pathname) > 1 then js ''/'' @ (pathSegments pathname ! 0)
      else js ''/'')"

section \<open>Sharing (handleShare)\<close>

text \<open>
  \<open>encodeURIComponent\<close> is the language's built-in, written here after its definition in
  ECMAScript: a code unit of the unreserved set is copied; any other is read as a code
  point (a surrogate pair is one code point, an unpaired surrogate throws \<open>URIError\<close>),
  encoded in UTF-8, and each octet written as \<open>%\<close> and two upper-case hex digits.
\<close>

definition uriUnreserved :: "16 word \<Rightarrow> bool" where
  "uriUnreserved c =
     (c \<in> set (js ''ABCDEFGHIJKLMNOPQRSTUVWXYZabcdefghijklmnopqrstuvwxyz0123456789-_.!~*'()''))"

definition hexDigit :: "nat \<Rightarrow> 16 word" where
  "hexDigit n = js ''0123456789ABCDEF'' ! n"

definition escape_octet :: "nat \<Rightarrow> jsstring" where
  "escape_octet b = [0x25, hexDigit (b div 16), hexDigit (b mod 16)]"

definition escape :: "nat list \<Rightarrow> jsstring" where
  "escape bs = concat (map escape_octet bs)"

definition utf8 :: "nat \<Rightarrow> nat list" where
  "utf8 cp =
     (if cp < 0x80 then [cp]
      else if cp < 0x800 then [0xC0 + cp div 0x40, 0x80 + cp mod 0x40]
      else if cp < 0x10000 then
        [0xE0 + cp div 0x1000, 0x80 + cp div 0x40 mod 0x40, 0x80 + cp mod 0x40]
      else
        [0xF0 + cp div 0x40000, 0x80 + cp div 0x1000 mod 0x40, 0x80 + cp div 0x40 mod 0x40,
         0x80 + cp mod 0x40])"

definition isLead :: "16 word \<Rightarrow> bool" where
  "isLead c = (0xD800 \<le> unat c \<and> unat c \<le> 0xDBFF)"

definition isTrail :: "16 word \<Rightarrow> bool" where
  "isTrail c = (0xDC00 \<le> unat c \<and> unat c \<le> 0xDFFF)"

definition surrogatePair :: "16 word \<Rightarrow> 16 word \<Rightarrow> nat" where
  "surrogatePair lead trail = (unat lead - 0xD800) * 0x400 + (unat trail - 0xDC00) + 0x10000"

datatype uri_error = URIError

fun encodeURIComponent :: "jsstring \<Rightarrow> uri_error + jsstring" where
  "encodeURIComponent [] = Inr []"
| "encodeURIComponent (c # cs) =
     (if uriUnreserved c then
        (case encodeURIComponent cs of Inl e \<Rightarrow> Inl e | Inr r \<Rightarrow> Inr (c # r))
      else if \<not> isLead c \<and> \<not> isTrail c then
        (case encodeURIComponent cs of
           Inl e \<Rightarrow> Inl e
         | Inr r \<Rightarrow> Inr (escape (utf8 (unat c)) @ r))
      else if isTrail c then Inl URIError
      else
        (case cs of
           [] \<Rightarrow> Inl URIError
         | d # ds \<Rightarrow>
            if \<not> isTrail d then Inl URIError
            else (case encodeURIComponent ds of
                    Inl e \<Rightarrow> Inl e
                  | Inr r \<Rightarrow> Inr (escape (utf8 (surrogatePair c d)) @ r))))"

text \<open>The text that \<open>handleShare\<close> encodes: the item's text, two line feeds, and the
  attribution literal.\<close>

definition attribution :: jsstring where
  "attribution =
     [0x2D, 0x20, 0x645, 0x646, 0x20, 0x62A, 0x637, 0x628, 0x64A, 0x642, 0x20, 0x630, 0x643,
      0x651, 0x631, 0x646, 0x64A]"

definition share_text :: "item \<Rightarrow> jsstring" where
  "share_text it = i_text it @ [0x0A, 0x0A] @ attribution"

definition handleShare :: "item \<Rightarrow> window \<Rightarrow> uri_error + window" where
  "handleShare it w =
     (case encodeURIComponent (share_text it) of
        Inl e \<Rightarrow> Inl e
      | Inr enc \<Rightarrow>
          Inr (w\<lparr>opened := opened w @ [(js ''https://wa.me/?text='' @ enc, js ''_blank'')]\<rparr>))"

text \<open>A string is well formed when every surrogate in it is part of a lead-trail pair.\<close>

fun well_formed :: "jsstring \<Rightarrow> bool" where
  "well_formed [] = True"
| "well_formed (c # cs) =
     (if isLead c then (case cs of [] \<Rightarrow> False | d # ds \<Rightarrow> isTrail d \<and> well_formed ds)
      else \<not> isTrail c \<and> well_formed cs)"

text \<open>
  Reading a link's payload back: \<open>unescape\<close> turns \<open>%XX\<close> into the octet and any other
  ASCII unit into itself, \<open>utf8_decode\<close> reads the octets as code points, \<open>utf16\<close> writes
  a code point as code units.
\<close>

fun unhex :: "16 word \<Rightarrow> nat option" where
  "unhex c =
     (if 0x30 \<le> unat c \<and> unat c \<le> 0x39 then Some (unat c - 0x30)
      else if 0x41 \<le> unat c \<and> unat c \<le> 0x46 then Some (unat c - 0x37)
      else if 0x61 \<le> unat c \<and> unat c \<le> 0x66 then Some (unat c - 0x57)
      else None)"

fun unescape :: "jsstring \<Rightarrow> nat list option" where
  "unescape [] = Some []"
| "unescape (c # cs) =
     (if c = 0x25 then
        (case cs of
           h # l # r \<Rightarrow>
             (case unhex h of
                None \<Rightarrow> None
              | Some a \<Rightarrow>
                 (case unhex l of
                    None \<Rightarrow> None
                  | Some b \<Rightarrow> map_option ((#) (a * 16 + b)) (unescape r)))
         | _ \<Rightarrow> None)
      else if unat c < 0x80 then map_option ((#) (unat c)) (unescape cs)
      else None)"

definition continuation :: "nat \<Rightarrow> bool" where
  "continuation b = (0x80 \<le> b \<and> b < 0xC0)"

fun utf8_decode :: "nat list \<Rightarrow> nat list option" where
  "utf8_decode [] = Some []"
| "utf8_decode (b # bs) =
     (if b < 0x80 then map_option ((#) b) (utf8_decode bs)
      else if 0xC0 \<le> b \<and> b < 0xE0 then
        (case bs of
           b1 # r \<Rightarrow>
             if continuation b1
             then map_option ((#) ((b - 0xC0) * 0x40 + (b1 - 0x80))) (utf8_decode r)
             else None
         | _ \<Rightarrow> None)
      else if 0xE0 \<le> b \<and> b < 0xF0 then
        (case bs of
           b1 # b2 # r \<Rightarrow>
             if continuation b1 \<and> continuation b2
             then map_option ((#) ((b - 0xE0) * 0x1000 + (b1 - 0x80) * 0x40 + (b2 - 0x80)))
                    (utf8_decode r)
             else None
         | _ \<Rightarrow> None)
      else if 0xF0 \<le> b \<and> b < 0xF8 then
        (case bs of
           b1 # b2 # b3 # r \<Rightarrow>
             if continuation b1 \<and> continuation b2 \<and> continuation b3
             then map_option
                    ((#) ((b - 0xF0) * 0x40000 + (b1 - 0x80) * 0x1000 + (b2 - 0x80) * 0x40 +
                          (b3 - 0x80)))
                    (utf8_decode r)
             else None
         | _ \<Rightarrow> None)
      else None)"

definition utf16 :: "nat \<Rightarrow> jsstring" where
  "utf16 cp =
     (if cp < 0x10000 then [of_nat cp]
      else [of_nat (0xD800 + (cp - 0x10000) div 0x400), of_nat (0xDC00 + (cp - 0x10000) mod 0x400)])"

definition uri_decode :: "jsstring \<Rightarrow> jsstring option" where
  "uri_decode p =
     (case unescape p of
        None \<Rightarrow> None
      | Some bs \<Rightarrow>
         (case utf8_decode bs of
            None \<Rightarrow> None
          | Some cps \<Rightarrow> Some (concat (map utf16 cps))))"

section \<open>A small store\<close>

text \<open>One section \<open>azkar\<close> with one category \<open>azkar_morning\<close> holding one item
  \<open>m1\<close>, for concrete checks.\<close>

definition scenario_item :: item where
  "scenario_item =
     \<lparr>i_id = js ''m1'', i_text = js ''...'', i_source = None, i_count = Some 3, i_note = None\<rparr>"

definition scenario_category :: category where
  "scenario_category =
     \<lparr>c_id = js ''azkar_morning'', c_title = js ''Morning'', c_icon = None,
      c_items = [scenario_item]\<rparr>"

definition scenario_store :: "section_data list" where
  "scenario_store =
     [\<lparr>s_id = js ''azkar'', s_title = js ''Azkar'', s_description = js ''Remembrance'',
       s_categories = [scenario_category]\<rparr>]"

definition lone_surrogate_item :: item where
  "lone_surrogate_item =
     \<lparr>i_id = js ''d1'', i_text = [0xD83D], i_source = None, i_count = None, i_note = None\<rparr>"

definition empty_window :: window where
  "empty_window = \<lparr>w_audio = init_audio, alerts = [], opened = []\<rparr>"

section \<open>Facts about the coordinator's operations\<close>

lemma play_active_is_stop: "playingId s = Some i \<Longrightarrow> play vs i t s = stop s"
  by (simp add: play_def)

lemma play_other_queues:
  "playingId s \<noteq> Some i \<Longrightarrow>
   play vs i t s = s\<lparr>synth := [new_utterance vs i t], utteranceRef := Some (new_utterance vs i t)\<rparr>"
  by (simp add: play_def cancel_def speak_def Let_def)

lemma stop_fields:
  "playingId (stop s) = None" "utteranceRef (stop s) = None" "synth (stop s) = []"
  "console (stop s) = console s"
  by (simp_all add: stop_def cancel_def)

lemma fire_start_play:
  "playingId s \<noteq> Some i \<Longrightarrow> fire_start (play vs i t s) = (play vs i t s)\<lparr>playingId := Some i\<rparr>"
  by (simp add: play_other_queues fire_start_def onstart_def new_utterance_def)

lemma fire_start_stop: "fire_start (stop s) = stop s"
  by (simp add: fire_start_def stop_fields)

lemma play_synth:
  "synth (play vs i t s) = (if playingId s = Some i then [] else [new_utterance vs i t])"
  by (simp add: play_def stop_def cancel_def speak_def Let_def)

lemma play_playingId:
  "playingId (play vs i t s) = (if playingId s = Some i then None else playingId s)"
  by (simp add: play_def stop_def cancel_def speak_def Let_def)

lemma fire_start_synth: "synth (fire_start s) = synth s"
  by (simp add: fire_start_def onstart_def split: list.splits)

lemma fire_start_playingId:
  "playingId (fire_start s) = (case synth s of [] \<Rightarrow> playingId s | u # q \<Rightarrow> Some (u_owner u))"
  by (simp add: fire_start_def onstart_def split: list.splits)

lemma owner_new_utterance: "u_owner (new_utterance vs i t) = i"
  by (simp add: new_utterance_def)

text \<open>
  C1, as amended. A \<open>play\<close> request for the id that is active is a \<open>stop\<close>: the queue
  is emptied and the active id cleared. So a request, its start notification, and a second
  request for the same item leave no item active, and nothing queued when the first
  request had queued its utterance. A second request that arrives before any notification
  does not toggle: it replaces the queued utterance and leaves \<open>playingId\<close> as it was, the
  state a single request gives.
\<close>

theorem play_twice_toggles_off:
  "(playingId s = Some i \<longrightarrow>
      play vs i t s = stop s \<and> playingId (play vs i t s) = None \<and>
      synth (play vs i t s) = [] \<and> utteranceRef (play vs i t s) = None) \<and>
   playingId (play vs i t' (fire_start (play vs i t s))) = None \<and>
   (playingId s \<noteq> Some i \<longrightarrow> synth (play vs i t' (fire_start (play vs i t s))) = []) \<and>
   (playingId s \<noteq> Some i \<longrightarrow>
      play vs i t' (play vs i t s) = play vs i t' s \<and>
      playingId (play vs i t' (play vs i t s)) = playingId s \<and>
      synth (play vs i t' (play vs i t s)) = [new_utterance vs i t'])"
proof (intro conjI impI)
  assume a: "playingId s = Some i"
  show "play vs i t s = stop s" using a by (rule play_active_is_stop)
  show "playingId (play vs i t s) = None" using a by (simp add: play_active_is_stop stop_fields)
  show "synth (play vs i t s) = []" using a by (simp add: play_active_is_stop stop_fields)
  show "utteranceRef (play vs i t s) = None" using a by (simp add: play_active_is_stop stop_fields)
next
  show "playingId (play vs i t' (fire_start (play vs i t s))) = None"
  proof (cases "playingId s = Some i")
    case True
    then show ?thesis
      by (simp add: play_active_is_stop fire_start_stop play_other_queues stop_fields)
  next
    case False
    then show ?thesis
      by (simp add: fire_start_play play_active_is_stop stop_fields)
  qed
next
  assume "playingId s \<noteq> Some i"
  then show "synth (play vs i t' (fire_start (play vs i t s))) = []"
    by (simp add: fire_start_play play_active_is_stop stop_fields)
next
  assume n: "playingId s \<noteq> Some i"
  show "play vs i t' (play vs i t s) = play vs i t' s"
    using n by (simp add: play_other_queues)
  show "playingId (play vs i t' (play vs i t s)) = playingId s"
    using n by (simp add: play_playingId)
  show "synth (play vs i t' (play vs i t s)) = [new_utterance vs i t']"
    using n by (simp add: play_synth play_playingId)
qed

theorem play_twice_toggles_off_witness:
  "playingId (fire_start (play [] (js ''m1'') (js ''x'') init_audio)) = Some (js ''m1'') \<and>
   play [] (js ''m1'') (js ''x'') (fire_start (play [] (js ''m1'') (js ''x'') init_audio))
     = stop (fire_start (play [] (js ''m1'') (js ''x'') init_audio)) \<and>
   playingId init_audio \<noteq> Some (js ''m1'') \<and>
   playingId (play [] (js ''m1'') (js ''x'') (fire_start (play [] (js ''m1'') (js ''x'') init_audio)))
     = None \<and>
   synth (play [] (js ''m1'') (js ''x'') (fire_start (play [] (js ''m1'') (js ''x'') init_audio)))
     = [] \<and>
   play [] (js ''m1'') (js ''x'') (play [] (js ''m1'') (js ''x'') init_audio)
     = play [] (js ''m1'') (js ''x'') init_audio \<and>
   synth (play [] (js ''m1'') (js ''x'') (play [] (js ''m1'') (js ''x'') init_audio))
     = [new_utterance [] (js ''m1'') (js ''x'')]"
proof -
  have h: "playingId (fire_start (play [] (js ''m1'') (js ''x'') init_audio)) = Some (js ''m1'')"
    by (simp add: fire_start_play init_audio_def)
  have n: "playingId init_audio \<noteq> Some (js ''m1'')"
    by (simp add: init_audio_def)
  show ?thesis
    using h n
      play_twice_toggles_off [of "fire_start (play [] (js ''m1'') (js ''x'') init_audio)"
        "js ''m1''" "[]" "js ''x''" "js ''x''"]
      play_twice_toggles_off [of init_audio "js ''m1''" "[]" "js ''x''" "js ''x''"]
    by blast
qed

text \<open>
  C1, as stated, fails. With \<open>j\<close> sounding, two requests for \<open>i\<close> with no notification
  between them leave \<open>j\<close> marked active. And from a coordinator with nothing active, two
  requests for \<open>m1\<close> leave its utterance queued, so that its start notification makes
  \<open>m1\<close> active: the pair has not toggled playback off.
\<close>

theorem play_twice_counterexample:
  "playingId (run [] [Play (js ''j'') (js ''y''), Started,
                      Play (js ''i'') (js ''x''), Play (js ''i'') (js ''x'')] init_audio)
     = Some (js ''j'') \<and>
   isPlaying (run [] [Play (js ''m1'') (js ''x''), Play (js ''m1'') (js ''x''), Started] init_audio)
     (js ''m1'')"
  by (simp add: play_synth play_playingId fire_start_playingId owner_new_utterance
                init_audio_def isPlaying_def js_def)

section \<open>One active item\<close>

lemma step_queue_bound: "length (synth s) \<le> 1 \<Longrightarrow> length (synth (step vs e s)) \<le> 1"
  by (cases e)
     (auto simp: play_def stop_def cancel_def speak_def Let_def fire_start_def fire_end_def
                 fire_error_def onstart_def onend_def onerror_def split: list.splits)

lemma reachable_queue_bound: "reachable vs s \<Longrightarrow> length (synth s) \<le> 1"
proof (induction rule: reachable.induct)
  case reach_init
  show ?case by (simp add: init_audio_def)
next
  case (reach_step s e)
  then show ?case by (intro step_queue_bound)
qed

lemma isPlaying_unique: "isPlaying s i \<Longrightarrow> isPlaying s j \<Longrightarrow> i = j"
  by (simp add: isPlaying_def)

lemma card_isPlaying: "card {i. isPlaying s i} \<le> 1"
proof (cases "playingId s")
  case None
  then have "{i. isPlaying s i} = {}" by (simp add: isPlaying_def)
  then show ?thesis by simp
next
  case (Some j)
  then have "{i. isPlaying s i} = {j}" by (auto simp: isPlaying_def)
  then show ?thesis by simp
qed

text \<open>
  C2. In every reachable state at most one id is active and at most one utterance is
  queued; every event leads to a reachable state with the same bounds; and after a start
  callback for \<open>j\<close> the active ids are exactly \<open>{j}\<close>, whatever was active before.
\<close>

theorem at_most_one_active:
  assumes "reachable vs s"
  shows "card {i. isPlaying s i} \<le> 1 \<and>
         length (synth s) \<le> 1 \<and>
         reachable vs (step vs e s) \<and>
         card {i. isPlaying (step vs e s) i} \<le> 1 \<and>
         length (synth (step vs e s)) \<le> 1 \<and>
         {i. isPlaying (onstart j s) i} = {j}"
proof -
  have r: "reachable vs (step vs e s)" using assms by (rule reach_step)
  have "{i. isPlaying (onstart j s) i} = {j}" by (auto simp: isPlaying_def onstart_def)
  with r show ?thesis
    using card_isPlaying [of s] card_isPlaying [of "step vs e s"]
      reachable_queue_bound [OF assms] reachable_queue_bound [OF r]
    by blast
qed

theorem at_most_one_active_witness:
  "reachable [] (step [] (Play (js ''a'') (js ''x'')) init_audio) \<and>
   card {i. isPlaying (step [] (Play (js ''a'') (js ''x'')) init_audio) i} \<le> 1 \<and>
   length (synth (step [] (Play (js ''a'') (js ''x'')) init_audio)) \<le> 1 \<and>
   {i. isPlaying (onstart (js ''b'') (step [] (Play (js ''a'') (js ''x'')) init_audio)) i} = {js ''b''}"
proof -
  have h: "reachable [] (step [] (Play (js ''a'') (js ''x'')) init_audio)"
    by (rule reach_step) (rule reach_init)
  show ?thesis
    using h at_most_one_active [OF h, of Stop "js ''b''"] by simp
qed

section \<open>Preemption\<close>

text \<open>
  C3. For \<open>a \<noteq> b\<close>, after \<open>play a\<close> then \<open>play b\<close> no utterance of \<open>a\<close> is queued, and
  once the queued utterance starts, \<open>b\<close> is active and \<open>a\<close> is not. The utterance of
  \<open>b\<close> is queued whenever \<open>b\<close> was not the active id at the first request, and always
  when the start notification of \<open>a\<close> arrived between the two requests.
\<close>

theorem play_preempts:
  assumes "a \<noteq> b"
  shows "(\<forall>u \<in> set (synth (play vs b tb (play vs a ta s))). u_owner u \<noteq> a) \<and>
         (synth (play vs b tb (play vs a ta s)) \<noteq> [] \<longrightarrow>
            playingId (fire_start (play vs b tb (play vs a ta s))) = Some b \<and>
            isPlaying (fire_start (play vs b tb (play vs a ta s))) b \<and>
            \<not> isPlaying (fire_start (play vs b tb (play vs a ta s))) a) \<and>
         (playingId s \<noteq> Some b \<longrightarrow>
            synth (play vs b tb (play vs a ta s)) = [new_utterance vs b tb]) \<and>
         synth (play vs b tb (fire_start (play vs a ta s))) = [new_utterance vs b tb] \<and>
         isPlaying (fire_start (play vs b tb (fire_start (play vs a ta s)))) b \<and>
         \<not> isPlaying (fire_start (play vs b tb (fire_start (play vs a ta s)))) a"
  using assms
  by (auto simp: play_synth play_playingId fire_start_synth fire_start_playingId
                 owner_new_utterance isPlaying_def)

theorem play_preempts_witness:
  "js ''a'' \<noteq> js ''b'' \<and>
   playingId init_audio \<noteq> Some (js ''b'') \<and>
   synth (play [] (js ''b'') (js ''y'') (play [] (js ''a'') (js ''x'') init_audio))
     = [new_utterance [] (js ''b'') (js ''y'')] \<and>
   synth (play [] (js ''b'') (js ''y'') (play [] (js ''a'') (js ''x'') init_audio)) \<noteq> [] \<and>
   isPlaying (fire_start (play [] (js ''b'') (js ''y'') (play [] (js ''a'') (js ''x'') init_audio)))
     (js ''b'') \<and>
   \<not> isPlaying (fire_start (play [] (js ''b'') (js ''y'') (play [] (js ''a'') (js ''x'') init_audio)))
     (js ''a'')"
proof -
  have h: "js ''a'' \<noteq> js ''b''" by (simp add: js_def)
  have n: "playingId init_audio \<noteq> Some (js ''b'')" by (simp add: init_audio_def)
  have q: "synth (play [] (js ''b'') (js ''y'') (play [] (js ''a'') (js ''x'') init_audio)) \<noteq> []"
    by (simp add: play_synth play_playingId init_audio_def)
  show ?thesis
    using h n q play_preempts [OF h, of "[]" "js ''y''" "js ''x''" init_audio] by blast
qed

section \<open>Activation happens at start\<close>

lemma step_sets_only_on_start:
  "playingId s \<noteq> Some i \<Longrightarrow> playingId (step vs e s) = Some i \<Longrightarrow> starts i e s"
  by (cases e)
     (auto simp: play_playingId stop_fields fire_start_playingId fire_end_def fire_error_def
                 onend_def onerror_def starts_def split: list.splits if_splits)

lemma quiet_keeps_inactive:
  "playingId s \<noteq> Some i \<Longrightarrow> quiet vs i es s \<Longrightarrow> playingId (run vs es s) \<noteq> Some i"
proof (induction es arbitrary: s)
  case Nil
  then show ?case by simp
next
  case (Cons e es)
  from Cons.prems have "\<not> starts i e s" and q: "quiet vs i es (step vs e s)" by simp_all
  with Cons.prems(1) have "playingId (step vs e s) \<noteq> Some i"
    using step_sets_only_on_start by blast
  with q show ?case by (simp add: Cons.IH)
qed

text \<open>
  C4. A \<open>play\<close> request for an id that is not active leaves \<open>playingId\<close> as it was;
  along any trace of events without a start notification for that id the id stays
  inactive; a step that makes it active is such a start notification; and the start
  notification of the queued utterance does make it active.
\<close>

theorem active_only_from_start:
  assumes "playingId s \<noteq> Some i"
  shows "playingId (play vs i t s) = playingId s \<and>
         playingId (play vs i t s) \<noteq> Some i \<and>
         (\<forall>es. quiet vs i es (play vs i t s) \<longrightarrow> playingId (run vs es (play vs i t s)) \<noteq> Some i) \<and>
         (\<forall>e s'. playingId s' \<noteq> Some i \<and> playingId (step vs e s') = Some i \<longrightarrow> starts i e s') \<and>
         playingId (fire_start (play vs i t s)) = Some i"
proof -
  have p: "playingId (play vs i t s) = playingId s" using assms by (simp add: play_playingId)
  then have n: "playingId (play vs i t s) \<noteq> Some i" using assms by simp
  have "playingId (fire_start (play vs i t s)) = Some i"
    using assms by (simp add: fire_start_playingId play_synth owner_new_utterance)
  with p n show ?thesis
    using quiet_keeps_inactive [OF n] step_sets_only_on_start by blast
qed

theorem active_only_from_start_witness:
  "playingId init_audio \<noteq> Some (js ''a'') \<and>
   quiet [] (js ''a'') [Play (js ''b'') (js ''y''), Started, Ended, Stop] (play [] (js ''a'') (js ''x'') init_audio) \<and>
   playingId (run [] [Play (js ''b'') (js ''y''), Started, Ended, Stop] (play [] (js ''a'') (js ''x'') init_audio))
     \<noteq> Some (js ''a'') \<and>
   playingId (fire_start (play [] (js ''a'') (js ''x'') init_audio)) = Some (js ''a'')"
proof -
  have h: "playingId init_audio \<noteq> Some (js ''a'')" by (simp add: init_audio_def)
  have q: "quiet [] (js ''a'') [Play (js ''b'') (js ''y''), Started, Ended, Stop]
             (play [] (js ''a'') (js ''x'') init_audio)"
    by (simp add: starts_def play_synth play_playingId fire_start_synth fire_start_playingId
                  fire_end_def onend_def owner_new_utterance init_audio_def js_def)
  show ?thesis
    using h q active_only_from_start [OF h, of "[]" "js ''x''"] by blast
qed

section \<open>Stop, completion and error\<close>

lemma fire_end_single: "synth s = [u] \<Longrightarrow> fire_end s = stop s"
  by (simp add: fire_end_def onend_def stop_def cancel_def)

lemma fire_error_single:
  "synth s = [u] \<Longrightarrow> fire_error e s = (stop s)\<lparr>console := console s @ [(js ''TTS Error:'', e)]\<rparr>"
  by (simp add: fire_error_def onerror_def stop_def cancel_def)

lemma queue_single: "length (synth s) \<le> 1 \<Longrightarrow> synth s \<noteq> [] \<Longrightarrow> \<exists>u. synth s = [u]"
  by (cases "synth s") auto

text \<open>
  C5. \<open>stop\<close> empties the queue and clears the active id and the ref. When the queued
  utterance of a reachable state finishes, the state is the one \<open>stop\<close> gives; when it
  fails, it is that state with the error logged to the console. The bodies of \<open>onend\<close>
  and \<open>onerror\<close> leave the active id and the ref as \<open>stop\<close> does, in any state.
\<close>

theorem completion_clears_like_stop:
  assumes "reachable vs s" and "synth s \<noteq> []"
  shows "playingId (stop s) = None \<and> utteranceRef (stop s) = None \<and> synth (stop s) = [] \<and>
         fire_end s = stop s \<and>
         fire_error e s = (stop s)\<lparr>console := console s @ [(js ''TTS Error:'', e)]\<rparr> \<and>
         playingId (onend s) = playingId (stop s) \<and>
         utteranceRef (onend s) = utteranceRef (stop s) \<and>
         playingId (onerror e s) = playingId (stop s) \<and>
         utteranceRef (onerror e s) = utteranceRef (stop s)"
proof -
  obtain u where u: "synth s = [u]"
    using queue_single [OF reachable_queue_bound [OF assms(1)] assms(2)] by blast
  show ?thesis
    using fire_end_single [OF u] fire_error_single [OF u]
    by (simp add: stop_fields onend_def onerror_def)
qed

theorem completion_clears_like_stop_witness:
  "reachable [] (step [] Started (step [] (Play (js ''a'') (js ''x'')) init_audio)) \<and>
   synth (step [] Started (step [] (Play (js ''a'') (js ''x'')) init_audio)) \<noteq> [] \<and>
   playingId (step [] Started (step [] (Play (js ''a'') (js ''x'')) init_audio)) = Some (js ''a'') \<and>
   fire_end (step [] Started (step [] (Play (js ''a'') (js ''x'')) init_audio))
     = stop (step [] Started (step [] (Play (js ''a'') (js ''x'')) init_audio)) \<and>
   playingId (fire_end (step [] Started (step [] (Play (js ''a'') (js ''x'')) init_audio))) = None"
proof -
  have r: "reachable [] (step [] Started (step [] (Play (js ''a'') (js ''x'')) init_audio))"
    by (intro reach_step reach_init)
  have q: "synth (step [] Started (step [] (Play (js ''a'') (js ''x'')) init_audio)) \<noteq> []"
    by (simp add: fire_start_synth play_synth init_audio_def)
  have p: "playingId (step [] Started (step [] (Play (js ''a'') (js ''x'')) init_audio)) = Some (js ''a'')"
    by (simp add: fire_start_playingId play_synth owner_new_utterance init_audio_def)
  show ?thesis
    using r q p completion_clears_like_stop [OF r q] by (simp add: stop_fields)
qed

section \<open>Speech not available\<close>

text \<open>
  C6. Without the speech capability, \<open>handleSpeak\<close> adds exactly one alert and changes
  nothing else: the coordinator's state and the opened links are as before.
\<close>

theorem no_speech_alerts_once:
  "handleSpeak False vs it w = w\<lparr>alerts := alerts w @ [speech_unsupported]\<rparr> \<and>
   alerts (handleSpeak False vs it w) = alerts w @ [speech_unsupported] \<and>
   length (alerts (handleSpeak False vs it w)) = Suc (length (alerts w)) \<and>
   w_audio (handleSpeak False vs it w) = w_audio w \<and>
   opened (handleSpeak False vs it w) = opened w"
  by (simp add: handleSpeak_def)

section \<open>Unknown identifiers\<close>

lemma find_None_image: "x \<notin> Some ` f ` set xs \<Longrightarrow> find (\<lambda>s. Some (f s) = x) xs = None"
  by (auto simp: find_None_iff)

text \<open>
  C7. For a section id that no section of the store has, both pages are the placeholder;
  for a category id that no category of the store has, the items page is the placeholder.
  The pages are total functions whose value here is the placeholder with its message.
\<close>

theorem unknown_ids_give_placeholder:
  "(sectionId \<notin> Some ` s_id ` set APP_DATA \<longrightarrow>
      SectionCategoriesPage APP_DATA sectionId = Placeholder section_not_found \<and>
      ItemsListPage APP_DATA sectionId categoryId = Placeholder content_not_found) \<and>
   (categoryId \<notin> Some ` c_id ` (\<Union>s \<in> set APP_DATA. set (s_categories s)) \<longrightarrow>
      ItemsListPage APP_DATA sectionId categoryId = Placeholder content_not_found)"
proof (intro conjI impI)
  assume a: "sectionId \<notin> Some ` s_id ` set APP_DATA"
  show "SectionCategoriesPage APP_DATA sectionId = Placeholder section_not_found"
    using find_None_image [OF a] by (simp add: SectionCategoriesPage_def)
  show "ItemsListPage APP_DATA sectionId categoryId = Placeholder content_not_found"
    using find_None_image [OF a] by (simp add: ItemsListPage_def)
next
  assume a: "categoryId \<notin> Some ` c_id ` (\<Union>s \<in> set APP_DATA. set (s_categories s))"
  show "ItemsListPage APP_DATA sectionId categoryId = Placeholder content_not_found"
  proof (cases "find (\<lambda>s. Some (s_id s) = sectionId) APP_DATA")
    case None
    then show ?thesis by (simp add: ItemsListPage_def)
  next
    case (Some sec)
    then have "sec \<in> set APP_DATA" by (auto simp: find_Some_iff)
    with a have "categoryId \<notin> Some ` c_id ` set (s_categories sec)" by auto
    then have "find (\<lambda>c. Some (c_id c) = categoryId) (s_categories sec) = None"
      by (rule find_None_image)
    with Some show ?thesis by (simp add: ItemsListPage_def)
  qed
qed

theorem unknown_ids_give_placeholder_witness:
  "Some (js ''quran'') \<notin> Some ` s_id ` set scenario_store \<and>
   SectionCategoriesPage scenario_store (Some (js ''quran'')) = Placeholder section_not_found \<and>
   Some (js ''dua_rizq'') \<notin> Some ` c_id ` (\<Union>s \<in> set scenario_store. set (s_categories s)) \<and>
   ItemsListPage scenario_store (Some (js ''azkar'')) (Some (js ''dua_rizq''))
     = Placeholder content_not_found"
proof -
  have a: "Some (js ''quran'') \<notin> Some ` s_id ` set scenario_store"
    by (simp add: scenario_store_def js_def)
  have b: "Some (js ''dua_rizq'') \<notin> Some ` c_id ` (\<Union>s \<in> set scenario_store. set (s_categories s))"
    by (simp add: scenario_store_def scenario_category_def js_def)
  show ?thesis
    using a b
      unknown_ids_give_placeholder [of "Some (js ''quran'')" scenario_store "Some (js ''dua_rizq'')"]
      unknown_ids_give_placeholder [of "Some (js ''azkar'')" scenario_store "Some (js ''dua_rizq'')"]
    by blast
qed

section \<open>Actions of a card\<close>

text \<open>
  C10. A card offers Speak exactly when its type is \<open>azkar\<close>, Share exactly when it is
  \<open>adiyah\<close>, and Copy always; and the cards of a rendered items page carry as type the
  id of the section the page found in the store.
\<close>

theorem actions_by_section:
  "(Speak \<in> set (card_actions (ContentCard it ty)) \<longleftrightarrow> ty = js ''azkar'') \<and>
   (Share \<in> set (card_actions (ContentCard it ty)) \<longleftrightarrow> ty = js ''adiyah'') \<and>
   Copy \<in> set (card_actions (ContentCard it ty)) \<and>
   (ItemsListPage APP_DATA sectionId categoryId = ItemsView title cards \<longrightarrow>
      (\<exists>sec \<in> set APP_DATA. \<exists>cat \<in> set (s_categories sec).
          sectionId = Some (s_id sec) \<and> categoryId = Some (c_id cat) \<and>
          cards = map (\<lambda>it. ContentCard it (s_id sec)) (c_items cat)))"
proof -
  have 1: "Speak \<in> set (card_actions (ContentCard it ty)) \<longleftrightarrow> ty = js ''azkar''"
    by (simp add: ContentCard_def)
  have 2: "Share \<in> set (card_actions (ContentCard it ty)) \<longleftrightarrow> ty = js ''adiyah''"
    by (simp add: ContentCard_def)
  have 3: "Copy \<in> set (card_actions (ContentCard it ty))"
    by (simp add: ContentCard_def)
  have 4: "ItemsListPage APP_DATA sectionId categoryId = ItemsView title cards \<longrightarrow>
      (\<exists>sec \<in> set APP_DATA. \<exists>cat \<in> set (s_categories sec).
          sectionId = Some (s_id sec) \<and> categoryId = Some (c_id cat) \<and>
          cards = map (\<lambda>it. ContentCard it (s_id sec)) (c_items cat))"
  proof
    assume v: "ItemsListPage APP_DATA sectionId categoryId = ItemsView title cards"
    then obtain sec where sec: "find (\<lambda>s. Some (s_id s) = sectionId) APP_DATA = Some sec"
      by (cases "find (\<lambda>s. Some (s_id s) = sectionId) APP_DATA") (auto simp: ItemsListPage_def)
    with v obtain cat where cat: "find (\<lambda>c. Some (c_id c) = categoryId) (s_categories sec) = Some cat"
      by (cases "find (\<lambda>c. Some (c_id c) = categoryId) (s_categories sec)") (auto simp: ItemsListPage_def)
    from sec have s1: "sec \<in> set APP_DATA" and s2: "sectionId = Some (s_id sec)"
      by (auto simp: find_Some_iff)
    from cat have c1: "cat \<in> set (s_categories sec)" and c2: "categoryId = Some (c_id cat)"
      by (auto simp: find_Some_iff)
    from v sec cat s2 have "cards = map (\<lambda>it. ContentCard it (s_id sec)) (c_items cat)"
      by (simp add: ItemsListPage_def param_str_def)
    with s1 s2 c1 c2 show "\<exists>sec \<in> set APP_DATA. \<exists>cat \<in> set (s_categories sec).
          sectionId = Some (s_id sec) \<and> categoryId = Some (c_id cat) \<and>
          cards = map (\<lambda>it. ContentCard it (s_id sec)) (c_items cat)"
      by blast
  qed
  from 1 2 3 4 show ?thesis by blast
qed

lemma scenario_page:
  "ItemsListPage scenario_store (Some (js ''azkar'')) (Some (js ''azkar_morning''))
     = ItemsView (js ''Morning'') [ContentCard scenario_item (js ''azkar'')]"
  by (simp add: ItemsListPage_def scenario_store_def scenario_category_def param_str_def)

theorem actions_by_section_witness:
  "ItemsListPage scenario_store (Some (js ''azkar'')) (Some (js ''azkar_morning''))
     = ItemsView (js ''Morning'') [ContentCard scenario_item (js ''azkar'')] \<and>
   Speak \<in> set (card_actions (ContentCard scenario_item (js ''azkar''))) \<and>
   Share \<notin> set (card_actions (ContentCard scenario_item (js ''azkar''))) \<and>
   Copy \<in> set (card_actions (ContentCard scenario_item (js ''azkar'')))"
proof -
  have n: "js ''azkar'' \<noteq> js ''adiyah''" by (simp add: js_def)
  show ?thesis
    using n scenario_page
      actions_by_section [of scenario_item "js ''azkar''" scenario_store "Some (js ''azkar'')"
        "Some (js ''azkar_morning'')" "js ''Morning''" "[ContentCard scenario_item (js ''azkar'')]"]
    by blast
qed

section \<open>Back\<close>

lemma split_not_Nil: "split sep xs \<noteq> []"
  by (induction xs) (auto split: list.splits)

lemma split_no_sep: "sep \<notin> set xs \<Longrightarrow> split sep xs = [xs]"
  by (induction xs) auto

lemma split_at_sep: "sep \<notin> set xs \<Longrightarrow> split sep (xs @ sep # ys) = xs # split sep ys"
  by (induction xs) auto

lemma js_slash: "js ''/'' = [slash]"
  by (simp add: js_def slash_def)

lemma segments_two:
  "slash \<notin> set a \<Longrightarrow> a \<noteq> [] \<Longrightarrow> slash \<notin> set b \<Longrightarrow> b \<noteq> [] \<Longrightarrow>
   pathSegments (js ''/'' @ a @ js ''/'' @ b) = [a, b]"
  by (simp add: pathSegments_def js_slash split_at_sep split_no_sep)

lemma segments_one:
  "slash \<notin> set a \<Longrightarrow> pathSegments (js ''/'' @ a) = (if a = [] then [] else [a])"
  by (simp add: pathSegments_def js_slash split_no_sep)

text \<open>
  C9. From \<open>/sec/cat\<close> (two non-empty segments without a slash) back navigates to
  \<open>/sec\<close>; from any path with at most one segment, so from \<open>/sec\<close> and from \<open>/\<close>,
  it navigates to \<open>/\<close>.
\<close>

theorem back_goes_up:
  "(slash \<notin> set sec \<and> sec \<noteq> [] \<and> slash \<notin> set cat \<and> cat \<noteq> [] \<longrightarrow>
      handleBack (js ''/'' @ sec @ js ''/'' @ cat) = js ''/'' @ sec) \<and>
   (length (pathSegments p) \<le> 1 \<longrightarrow> handleBack p = js ''/'') \<and>
   (slash \<notin> set sec \<longrightarrow> handleBack (js ''/'' @ sec) = js ''/'') \<and>
   handleBack (js ''/'') = js ''/''"
proof (intro conjI impI)
  assume "slash \<notin> set sec \<and> sec \<noteq> [] \<and> slash \<notin> set cat \<and> cat \<noteq> []"
  then have "pathSegments (js ''/'' @ sec @ js ''/'' @ cat) = [sec, cat]"
    by (simp add: segments_two)
  then show "handleBack (js ''/'' @ sec @ js ''/'' @ cat) = js ''/'' @ sec"
    by (simp add: handleBack_def)
next
  assume "length (pathSegments p) \<le> 1"
  then show "handleBack p = js ''/''" by (simp add: handleBack_def)
next
  assume "slash \<notin> set sec"
  then show "handleBack (js ''/'' @ sec) = js ''/''"
    by (simp add: handleBack_def segments_one)
next
  have "pathSegments (js ''/'') = []" by (simp add: pathSegments_def js_slash)
  then show "handleBack (js ''/'') = js ''/''" by (simp add: handleBack_def)
qed

theorem back_goes_up_witness:
  "slash \<notin> set (js ''azkar'') \<and> js ''azkar'' \<noteq> [] \<and>
   slash \<notin> set (js ''azkar_morning'') \<and> js ''azkar_morning'' \<noteq> [] \<and>
   handleBack (js ''/azkar/azkar_morning'') = js ''/azkar'' \<and>
   handleBack (js ''/azkar'') = js ''/'' \<and>
   length (pathSegments (js ''/adiyah'')) \<le> 1 \<and>
   handleBack (js ''/adiyah'') = js ''/''"
proof -
  have a: "slash \<notin> set (js ''azkar'') \<and> js ''azkar'' \<noteq> [] \<and>
           slash \<notin> set (js ''azkar_morning'') \<and> js ''azkar_morning'' \<noteq> []"
    by (simp add: js_def slash_def)
  have b: "length (pathSegments (js ''/adiyah'')) \<le> 1"
    by (simp add: js_def slash_def pathSegments_def)
  show ?thesis
    using a b back_goes_up [of "js ''azkar''" "js ''azkar_morning''" "js ''/adiyah''"]
    by (simp add: js_def)
qed

section \<open>The share link\<close>

lemma unreserved_cases:
  "uriUnreserved c \<Longrightarrow> unat c < 0x80 \<and> c \<noteq> 0x25 \<and> \<not> isLead c \<and> \<not> isTrail c"
  unfolding uriUnreserved_def js_def isLead_def isTrail_def
  by auto

lemma below_16: "n < 16 \<Longrightarrow> n \<in> {0, 1, 2, 3, 4, 5, 6, 7, 8, 9, 10, 11, 12, 13, 14, 15::nat}"
  by simp arith

lemma unhex_hexDigit: "n < 16 \<Longrightarrow> unhex (hexDigit n) = Some n"
  using below_16 [of n] by (auto simp: hexDigit_def js_def)

lemma hexDigit_unreserved: "n < 16 \<Longrightarrow> uriUnreserved (hexDigit n)"
  using below_16 [of n] by (auto simp: hexDigit_def js_def uriUnreserved_def)

lemma unescape_octet:
  "b < 256 \<Longrightarrow> unescape (escape_octet b @ r) = map_option ((#) b) (unescape r)"
proof -
  assume b: "b < 256"
  then have d: "b div 16 < 16" and m: "b mod 16 < 16" by simp_all
  have "b div 16 * 16 + b mod 16 = b" by simp
  then show ?thesis
    by (simp add: escape_octet_def unhex_hexDigit [OF d] unhex_hexDigit [OF m] del: unhex.simps)
qed

lemma unescape_escape:
  "\<forall>b \<in> set bs. b < 256 \<Longrightarrow> unescape (escape bs @ r) = map_option ((@) bs) (unescape r)"
proof (induction bs)
  case Nil
  show ?case by (simp add: escape_def option.map_ident)
next
  case (Cons b bs)
  then have b: "b < 256" and ih: "unescape (escape bs @ r) = map_option ((@) bs) (unescape r)"
    by simp_all
  have "escape (b # bs) @ r = escape_octet b @ (escape bs @ r)" by (simp add: escape_def)
  then show ?case
    by (simp add: unescape_octet [OF b] ih option.map_comp comp_def del: unescape.simps)
qed

lemma unescape_unreserved:
  "uriUnreserved c \<Longrightarrow> unescape (c # r) = map_option ((#) (unat c)) (unescape r)"
  using unreserved_cases [of c] by simp

lemma d4096: "(cp::nat) div 4096 = cp div 64 div 64"
  by (simp add: div_mult2_eq [symmetric])

lemma d262144: "(cp::nat) div 262144 = cp div 4096 div 64"
  by (simp add: div_mult2_eq [symmetric])

lemma split64: "(q::nat) div 64 * (64 * k) + q mod 64 * k = q * k"
proof -
  define a b where "a = q div 64" and "b = q mod 64"
  then have "q = a * 64 + b" by simp
  then show ?thesis unfolding a_def [symmetric] b_def [symmetric]
    by (simp add: add_mult_distrib)
qed

lemma join3: "(cp::nat) div 4096 * 4096 + cp div 64 mod 64 * 64 + cp mod 64 = cp"
  using split64 [of "cp div 64" 64] by (simp add: d4096)

lemma join4:
  "(cp::nat) div 262144 * 262144 + cp div 4096 mod 64 * 4096 + cp div 64 mod 64 * 64 + cp mod 64
     = cp"
  using split64 [of "cp div 4096" 4096] join3 [of cp] by (simp add: d262144)

lemma utf8_ranges:
  fixes cp :: nat
  shows "cp < 0x800 \<Longrightarrow> cp div 0x40 < 0x20"
    and "cp < 0x10000 \<Longrightarrow> cp div 0x1000 < 0x10"
    and "cp < 0x110000 \<Longrightarrow> cp div 0x40000 < 8"
    and "0x80 \<le> cp \<Longrightarrow> 2 \<le> cp div 0x40"
  by (simp_all add: less_mult_imp_div_less less_eq_div_iff_mult_less_eq)

lemma utf8_octets: "cp < 0x110000 \<Longrightarrow> \<forall>b \<in> set (utf8 cp). b < 256"
  using utf8_ranges(1) [of cp] utf8_ranges(2) [of cp] utf8_ranges(3) [of cp]
    mod_less_divisor [of 64 cp] mod_less_divisor [of 64 "cp div 64"]
    mod_less_divisor [of 64 "cp div 4096"]
  by (auto simp: utf8_def simp del: mod_less_divisor)

lemma utf8_decode_utf8:
  assumes "cp < 0x110000"
  shows "utf8_decode (utf8 cp @ r) = map_option ((#) cp) (utf8_decode r)"
proof -
  have m0: "cp mod 64 < 64" and m1: "cp div 64 mod 64 < 64" and m2: "cp div 4096 mod 64 < 64"
    by simp_all
  consider (one) "cp < 0x80" | (two) "0x80 \<le> cp" "cp < 0x800"
    | (three) "0x800 \<le> cp" "cp < 0x10000" | (four) "0x10000 \<le> cp"
    by linarith
  then show ?thesis
  proof cases
    case one
    then show ?thesis by (simp add: utf8_def)
  next
    case two
    have u: "utf8 cp = [0xC0 + cp div 0x40, 0x80 + cp mod 0x40]"
      using two by (simp add: utf8_def)
    have "cp div 64 * 64 + cp mod 64 = cp" by simp
    then show ?thesis
      unfolding u using utf8_ranges(1) [OF two(2)] utf8_ranges(4) [OF two(1)] m0
      by (simp add: continuation_def)
  next
    case three
    have u: "utf8 cp = [0xE0 + cp div 0x1000, 0x80 + cp div 0x40 mod 0x40, 0x80 + cp mod 0x40]"
      using three by (simp add: utf8_def)
    show ?thesis
      unfolding u using utf8_ranges(2) [OF three(2)] m0 m1 join3 [of cp]
      by (simp add: continuation_def)
  next
    case four
    have u: "utf8 cp = [0xF0 + cp div 0x40000, 0x80 + cp div 0x1000 mod 0x40,
                        0x80 + cp div 0x40 mod 0x40, 0x80 + cp mod 0x40]"
      using four by (simp add: utf8_def)
    show ?thesis
      unfolding u using utf8_ranges(3) [OF assms] m0 m1 m2 join4 [of cp]
      by (simp add: continuation_def)
  qed
qed

lemma unit_bound: "unat (c :: 16 word) < 0x10000"
  using unsigned_less [of c, where ?'a = nat] by simp

lemma utf16_unit: "utf16 (unat c) = [c]"
  using unit_bound [of c] by (simp add: utf16_def)

lemma pair_parts:
  assumes "isLead c" and "isTrail d"
  shows "surrogatePair c d = 0x10000 + ((unat c - 0xD800) * 0x400 + (unat d - 0xDC00))"
    and "unat d - 0xDC00 < 0x400" and "unat c - 0xD800 < 0x400"
    and "0xD800 + (unat c - 0xD800) = unat c" and "0xDC00 + (unat d - 0xDC00) = unat d"
  using assms unfolding surrogatePair_def isLead_def isTrail_def by linarith+

lemma utf16_pair:
  assumes "isLead c" and "isTrail d"
  shows "utf16 (surrogatePair c d) = [c, d]"
proof -
  note p = pair_parts [OF assms]
  have "(surrogatePair c d - 0x10000) div 0x400 = unat c - 0xD800"
    and "(surrogatePair c d - 0x10000) mod 0x400 = unat d - 0xDC00"
    using p(2) by (simp_all add: p(1))
  then show ?thesis
    using p(4) p(5) by (simp add: utf16_def p(1))
qed

lemma pair_bound:
  assumes "isLead c" and "isTrail d"
  shows "surrogatePair c d < 0x110000"
proof -
  note p = pair_parts [OF assms]
  have "(unat c - 0xD800) * 0x400 \<le> 0x3FF * 0x400"
    using p(3) by (intro mult_le_mono1) simp
  then show ?thesis using p(2) by (simp add: p(1))
qed

text \<open>The code points of a successfully encoded string, read back from its escapes.\<close>

lemma encode_octets:
  "encodeURIComponent s = Inr p \<Longrightarrow>
   \<exists>cps. unescape p = Some (concat (map utf8 cps)) \<and> (\<forall>cp \<in> set cps. cp < 0x110000) \<and>
         concat (map utf16 cps) = s"
proof (induction s arbitrary: p rule: encodeURIComponent.induct)
  case 1
  then have "p = []" by simp
  then show ?case by (intro exI [of _ "[]"]) simp
next
  case (2 c cs)
  show ?case
  proof (cases "uriUnreserved c")
    case True
    with "2.prems" obtain r where r: "encodeURIComponent cs = Inr r" and p: "p = c # r"
      by (auto split: sum.splits)
    from "2.IH"(1) [OF True r] obtain cps where
      c: "unescape r = Some (concat (map utf8 cps))" "\<forall>cp \<in> set cps. cp < 0x110000"
         "concat (map utf16 cps) = cs" by blast
    have lt: "unat c < 0x80" using unreserved_cases [OF True] by simp
    have "unescape p = Some (concat (map utf8 (unat c # cps)))"
      unfolding p unescape_unreserved [OF True] c(1) using lt by (simp add: utf8_def)
    moreover have "\<forall>cp \<in> set (unat c # cps). cp < 0x110000" using c(2) lt by simp
    moreover have "concat (map utf16 (unat c # cps)) = c # cs" using c(3) by (simp add: utf16_unit)
    ultimately show ?thesis by blast
  next
    case False
    show ?thesis
    proof (cases "\<not> isLead c \<and> \<not> isTrail c")
      case True
      with False "2.prems" obtain r where r: "encodeURIComponent cs = Inr r"
        and p: "p = escape (utf8 (unat c)) @ r"
        by (auto split: sum.splits)
      from "2.IH"(2) [OF False True r] obtain cps where
        c: "unescape r = Some (concat (map utf8 cps))" "\<forall>cp \<in> set cps. cp < 0x110000"
           "concat (map utf16 cps) = cs" by blast
      have lt: "unat c < 0x110000" using unit_bound [of c] by simp
      have "unescape p = Some (concat (map utf8 (unat c # cps)))"
        unfolding p unescape_escape [OF utf8_octets [OF lt]] c(1) by simp
      moreover have "\<forall>cp \<in> set (unat c # cps). cp < 0x110000" using c(2) lt by simp
      moreover have "concat (map utf16 (unat c # cps)) = c # cs" using c(3) by (simp add: utf16_unit)
      ultimately show ?thesis by blast
    next
      case surr: False
      with False "2.prems" have nt: "\<not> isTrail c" and lead: "isLead c"
        by (auto split: if_splits)
      with False surr "2.prems" obtain d ds where cs: "cs = d # ds" and tr: "isTrail d"
        by (cases cs) (auto split: if_splits)
      with False surr nt "2.prems" obtain r where r: "encodeURIComponent ds = Inr r"
        and p: "p = escape (utf8 (surrogatePair c d)) @ r"
        by (auto split: sum.splits)
      have ntd: "\<not> \<not> isTrail d" using tr by simp
      from "2.IH"(3) [OF False surr nt cs ntd r] obtain cps where
        c: "unescape r = Some (concat (map utf8 cps))" "\<forall>cp \<in> set cps. cp < 0x110000"
           "concat (map utf16 cps) = ds" by blast
      have lt: "surrogatePair c d < 0x110000" using pair_bound [OF lead tr] .
      have "unescape p = Some (concat (map utf8 (surrogatePair c d # cps)))"
        unfolding p unescape_escape [OF utf8_octets [OF lt]] c(1) by simp
      moreover have "\<forall>cp \<in> set (surrogatePair c d # cps). cp < 0x110000" using c(2) lt by simp
      moreover have "concat (map utf16 (surrogatePair c d # cps)) = c # cs"
        using c(3) by (simp add: utf16_pair [OF lead tr] cs)
      ultimately show ?thesis by blast
    qed
  qed
qed

lemma utf8_decode_concat:
  "\<forall>cp \<in> set cps. cp < 0x110000 \<Longrightarrow> utf8_decode (concat (map utf8 cps)) = Some cps"
proof (induction cps)
  case Nil
  show ?case by simp
next
  case (Cons cp cps)
  then have lt: "cp < 0x110000" and ih: "utf8_decode (concat (map utf8 cps)) = Some cps"
    by simp_all
  show ?case using utf8_decode_utf8 [OF lt, of "concat (map utf8 cps)"] ih by simp
qed

lemma decode_encode: "encodeURIComponent s = Inr p \<Longrightarrow> uri_decode p = Some s"
proof -
  assume "encodeURIComponent s = Inr p"
  from encode_octets [OF this] obtain cps where
    c: "unescape p = Some (concat (map utf8 cps))" "\<forall>cp \<in> set cps. cp < 0x110000"
       "concat (map utf16 cps) = s" by blast
  show ?thesis by (simp add: uri_decode_def c(1) utf8_decode_concat [OF c(2)] c(3))
qed

lemma isl_case: "isl (case x of Inl e \<Rightarrow> Inl e | Inr r \<Rightarrow> Inr (f r)) = isl x"
  by (cases x) simp_all

lemma encode_fails_iff: "isl (encodeURIComponent s) \<longleftrightarrow> \<not> well_formed s"
proof (induction s rule: encodeURIComponent.induct)
  case 1
  show ?case by simp
next
  case (2 c cs)
  show ?case
  proof (cases "uriUnreserved c")
    case True
    then show ?thesis
      using "2.IH"(1) [OF True] unreserved_cases [OF True] by (simp add: isl_case)
  next
    case False
    show ?thesis
    proof (cases "\<not> isLead c \<and> \<not> isTrail c")
      case True
      then show ?thesis using False "2.IH"(2) [OF False True] by (simp add: isl_case)
    next
      case surr: False
      show ?thesis
      proof (cases "isTrail c")
        case True
        then have "\<not> isLead c" by (simp add: isLead_def isTrail_def)
        with True False show ?thesis by simp
      next
        case nt: False
        with surr have lead: "isLead c" by simp
        show ?thesis
        proof (cases cs)
          case Nil
          with False lead nt show ?thesis by simp
        next
          case (Cons d ds)
          show ?thesis
          proof (cases "isTrail d")
            case True
            then have "\<not> \<not> isTrail d" by simp
            from "2.IH"(3) [OF False surr nt Cons this] True False lead nt Cons
            show ?thesis by (simp add: isl_case)
          next
            case False
            with \<open>\<not> uriUnreserved c\<close> lead nt Cons show ?thesis by simp
          qed
        qed
      qed
    qed
  qed
qed

lemma well_formed_encodes: "well_formed s \<Longrightarrow> \<exists>p. encodeURIComponent s = Inr p"
  using encode_fails_iff [of s] by (cases "encodeURIComponent s") simp_all

lemma well_formed_append: "well_formed a \<Longrightarrow> well_formed b \<Longrightarrow> well_formed (a @ b)"
proof (induction a rule: well_formed.induct)
  case 1
  then show ?case by simp
next
  case (2 c cs)
  show ?case
  proof (cases "isLead c")
    case True
    with "2.prems" obtain d ds where cs: "cs = d # ds" and d: "isTrail d" and ds: "well_formed ds"
      by (cases cs) auto
    from "2.IH"(1) [OF True cs ds "2.prems"(2)] True d cs show ?thesis by simp
  next
    case False
    with "2.prems" have "\<not> isTrail c" and "well_formed cs" by simp_all
    with "2.IH"(2) [OF False] "2.prems"(2) False show ?thesis by simp
  qed
qed

lemma escape_safe: "\<forall>b \<in> set bs. b < 256 \<Longrightarrow> \<forall>c \<in> set (escape bs). uriUnreserved c \<or> c = 0x25"
proof (induction bs)
  case Nil
  show ?case by (simp add: escape_def)
next
  case (Cons b bs)
  then have "b < 256" by simp
  then have "b div 16 < 16" and "b mod 16 < 16" by simp_all
  then have "uriUnreserved (hexDigit (b div 16))" and "uriUnreserved (hexDigit (b mod 16))"
    by (simp_all only: hexDigit_unreserved)
  moreover have "escape (b # bs) = escape_octet b @ escape bs" by (simp add: escape_def)
  ultimately show ?case using Cons by (auto simp: escape_octet_def)
qed

lemma encode_safe:
  "encodeURIComponent s = Inr p \<Longrightarrow> \<forall>c \<in> set p. uriUnreserved c \<or> c = 0x25"
proof (induction s arbitrary: p rule: encodeURIComponent.induct)
  case 1
  then show ?case by simp
next
  case (2 c cs)
  show ?case
  proof (cases "uriUnreserved c")
    case True
    with "2.prems" obtain r where r: "encodeURIComponent cs = Inr r" and p: "p = c # r"
      by (auto split: sum.splits)
    from "2.IH"(1) [OF True r] True p show ?thesis by simp
  next
    case False
    show ?thesis
    proof (cases "\<not> isLead c \<and> \<not> isTrail c")
      case True
      with False "2.prems" obtain r where r: "encodeURIComponent cs = Inr r"
        and p: "p = escape (utf8 (unat c)) @ r"
        by (auto split: sum.splits)
      have lt: "unat c < 0x110000" using unit_bound [of c] by simp
      from "2.IH"(2) [OF False True r] escape_safe [OF utf8_octets [OF lt]] p
      show ?thesis by auto
    next
      case surr: False
      with False "2.prems" have nt: "\<not> isTrail c" and lead: "isLead c"
        by (auto split: if_splits)
      with False surr "2.prems" obtain d ds where cs: "cs = d # ds" and tr: "isTrail d"
        by (cases cs) (auto split: if_splits)
      with False surr nt "2.prems" obtain r where r: "encodeURIComponent ds = Inr r"
        and p: "p = escape (utf8 (surrogatePair c d)) @ r"
        by (auto split: sum.splits)
      have ntd: "\<not> \<not> isTrail d" using tr by simp
      from "2.IH"(3) [OF False surr nt cs ntd r]
        escape_safe [OF utf8_octets [OF pair_bound [OF lead tr]]] p
      show ?thesis by auto
    qed
  qed
qed

lemma tail_well_formed: "well_formed ([0x0A, 0x0A] @ attribution)"
  by (simp add: attribution_def isLead_def isTrail_def)

lemma share_text_well_formed: "well_formed (i_text it) \<Longrightarrow> well_formed (share_text it)"
  unfolding share_text_def by (rule well_formed_append) (simp_all only: tail_well_formed)

text \<open>
  C8, as amended. For an item whose text is well formed, \<open>handleShare\<close> opens
  \<open>https://wa.me/?text=\<close> followed by a payload that is \<open>encodeURIComponent\<close> of the
  item's text, two line feeds and the attribution; the payload holds only unreserved
  characters and \<open>%\<close> escapes, and reading it back gives exactly that string.
\<close>

theorem share_link_payload:
  assumes "well_formed (i_text it)"
  shows "\<exists>p. handleShare it w =
               Inr (w\<lparr>opened := opened w @ [(js ''https://wa.me/?text='' @ p, js ''_blank'')]\<rparr>) \<and>
             encodeURIComponent (i_text it @ [0x0A, 0x0A] @ attribution) = Inr p \<and>
             (\<forall>c \<in> set p. uriUnreserved c \<or> c = 0x25) \<and>
             uri_decode p = Some (i_text it @ [0x0A, 0x0A] @ attribution)"
proof -
  from well_formed_encodes [OF share_text_well_formed [OF assms]]
  obtain p where p: "encodeURIComponent (share_text it) = Inr p" by blast
  have "handleShare it w =
          Inr (w\<lparr>opened := opened w @ [(js ''https://wa.me/?text='' @ p, js ''_blank'')]\<rparr>)"
    by (simp add: handleShare_def p)
  moreover have "encodeURIComponent (i_text it @ [0x0A, 0x0A] @ attribution) = Inr p"
    using p by (simp only: share_text_def)
  moreover have "uri_decode p = Some (i_text it @ [0x0A, 0x0A] @ attribution)"
    using decode_encode [OF p] by (simp only: share_text_def)
  ultimately show ?thesis using encode_safe [OF p] by blast
qed

text \<open>The link for the item of the small store, written out.\<close>

lemma scenario_share_url:
  "handleShare scenario_item empty_window =
     Inr (empty_window\<lparr>opened :=
       [(js ''https://wa.me/?text=...%0A%0A-%20%D9%85%D9%86%20%D8%AA%D8%B7%D8%A8%D9%8A%D9%82%20%D8%B0%D9%83%D9%91%D8%B1%D9%86%D9%8A'', js ''_blank'')]\<rparr>)"
  by (simp add: handleShare_def share_text_def scenario_item_def empty_window_def attribution_def
                uriUnreserved_def js_def isLead_def isTrail_def escape_def escape_octet_def
                hexDigit_def utf8_def)

theorem share_link_payload_witness:
  "well_formed (i_text scenario_item) \<and>
   (\<exists>p. handleShare scenario_item empty_window =
           Inr (empty_window\<lparr>opened := opened empty_window @
                  [(js ''https://wa.me/?text='' @ p, js ''_blank'')]\<rparr>) \<and>
         (\<forall>c \<in> set p. uriUnreserved c \<or> c = 0x25) \<and>
         uri_decode p = Some (i_text scenario_item @ [0x0A, 0x0A] @ attribution))"
proof -
  have h: "well_formed (i_text scenario_item)"
    by (simp add: scenario_item_def js_def isLead_def isTrail_def)
  show ?thesis
    using h share_link_payload [OF h, of empty_window] by blast
qed

text \<open>
  C8, as stated, fails for a text with an unpaired surrogate: \<open>encodeURIComponent\<close> throws
  and no link is opened.
\<close>

theorem share_lone_surrogate_counterexample:
  "handleShare lone_surrogate_item empty_window = Inl URIError"
  by (simp add: handleShare_def share_text_def lone_surrogate_item_def uriUnreserved_def js_def
                isLead_def isTrail_def)

end
